theory Spec2Isabelle
  imports Complex_Main
begin

section \<open>The SQLAlchemy panel of the debug toolbar\<close>

text \<open>
  A shallow embedding of \<^verbatim>\<open>debug_toolbar/panels/sqlalchemy.py\<close>. Python exceptions are
  values of \<open>exn\<close>; a method that mutates objects takes the state and returns it
  updated, together with \<open>Some x\<close> when it raised \<open>x\<close> (the state it had reached
  when raising is kept, as the mutated Python objects are).
\<close>

subsection \<open>Data\<close>

text \<open>An engine: its object identity and its URL rendered as a string.\<close>

datatype engine = Engine (ident: nat) (url: string)

datatype exn =
    HTTPException nat
  | KeyError
  | AttributeError
  | InvalidRequestError
  | UnboundExecutionError
  | RuntimeError string

fun is_HTTPException :: "exn \<Rightarrow> bool" where
  "is_HTTPException (HTTPException code) = True"
| "is_HTTPException x = False"

text \<open>A bind of a session: an \<^verbatim>\<open>Engine\<close>, or a \<^verbatim>\<open>Connection\<close> with its \<^verbatim>\<open>.engine\<close>.\<close>

datatype bind = EngineBind engine | ConnectionBind engine

text \<open>
  A \<^verbatim>\<open>Session\<close> as discovery reads it: \<open>binds\<close> is
  \<^verbatim>\<open>getattr(value, "_Session__binds", None)\<close> (the values of the dictionary, \<open>None\<close>
  when the attribute is missing), \<open>get_bind\<close> is what \<^verbatim>\<open>value.get_bind()\<close> returns or
  raises.
\<close>

record session =
  binds :: "bind list option"
  get_bind :: "exn + bind"

text \<open>
  A resolved dependency value: an \<^verbatim>\<open>AsyncSession\<close> with its \<^verbatim>\<open>sync_session\<close>
  (\<open>None\<close> when \<^verbatim>\<open>getattr(value, "sync_session", None)\<close> gives no session), a
  \<^verbatim>\<open>Session\<close>, or anything else.
\<close>

datatype dep_value = AsyncSessionValue "session option" | SessionValue session | OtherValue

text \<open>
  The dependency graph of a route, given by what \<^verbatim>\<open>solve_dependencies\<close> (FastAPI) does
  with it for the request at hand: it raises, or returns the resolved values
  (\<^verbatim>\<open>solved_result[0].values()\<close>, in order).
\<close>

datatype dependant = Dependant (solve_dependencies: "exn + dep_value list")

text \<open>\<open>dependant\<close> is \<open>None\<close> when \<^verbatim>\<open>hasattr(route, "dependant")\<close> is false.\<close>

record api_route =
  dependant :: "dependant option"

text \<open>\<open>route\<close> is \<open>None\<close> when the request has no \<^verbatim>\<open>"route"\<close> key.\<close>

record request =
  route :: "api_route option"

datatype response = Response nat string

text \<open>
  An \<^verbatim>\<open>ExecutionContext\<close>; \<open>start_time\<close> is the attribute \<^verbatim>\<open>_start_time\<close>, \<open>None\<close>
  while the context does not have it.
\<close>

record execution_context =
  engine :: engine
  statement :: string
  parameters :: "(string \<times> string) list"
  start_time :: "real option"

record query =
  duration :: real
  sql :: string
  params :: "(string \<times> string) list"

text \<open>
  The listeners are the bound methods \<^verbatim>\<open>self.before_execute\<close> and
  \<^verbatim>\<open>self.after_execute\<close> of a panel, named by the identity of the panel object.
\<close>

datatype event_id = before_cursor_execute | after_cursor_execute

datatype callback = BeforeExecute nat | AfterExecute nat

datatype call = Listen engine event_id callback | Remove engine event_id callback

text \<open>
  The state shared by everything that runs in the process: the listeners registered on
  the engines (in registration order), the calls made to the event API so far, the
  Query Log of every panel (by panel identity) and the reading of the monotonic clock
  \<^verbatim>\<open>perf_counter()\<close>.
\<close>

record world =
  listeners :: "(engine \<times> event_id \<times> callback) list"
  calls :: "call list"
  queries :: "nat \<Rightarrow> (string \<times> query) list"
  now :: real

text \<open>
  The panel object proper: its identity and \<^verbatim>\<open>self.engines\<close>. The Python set is a list
  without repetition; the order of the list stands for the order in which the set is
  iterated, which Python leaves open (both loops of \<^verbatim>\<open>process_request\<close> see the same
  one). \<^verbatim>\<open>set.add\<close> is \<open>set_add\<close>, which puts a new element last.
\<close>

record panel =
  pid :: nat
  engines :: "engine list"

definition init_panel :: "nat \<Rightarrow> panel" where
  "init_panel i = \<lparr>pid = i, engines = []\<rparr>"

definition set_add :: "'a \<Rightarrow> 'a list \<Rightarrow> 'a list" where
  "set_add x xs = (if x \<in> set xs then xs else xs @ [x])"

subsection \<open>The event API of SQLAlchemy\<close>

text \<open>
  \<^verbatim>\<open>event.listen\<close> and \<^verbatim>\<open>event.remove\<close> are library functions. A listener is keyed by
  (target, identifier, function): listening again with a key that is registered adds
  nothing, and removing a key that is not registered raises \<^verbatim>\<open>InvalidRequestError\<close>
  ("No listeners found for event ...").
\<close>

definition event_listen :: "engine \<Rightarrow> event_id \<Rightarrow> callback \<Rightarrow> world \<Rightarrow> world" where
  "event_listen target identifier cb w =
     w\<lparr>listeners := set_add (target, identifier, cb) (listeners w),
       calls := calls w @ [Listen target identifier cb]\<rparr>"

definition event_remove :: "engine \<Rightarrow> event_id \<Rightarrow> callback \<Rightarrow> world \<Rightarrow> exn option \<times> world" where
  "event_remove target identifier cb w =
     (if (target, identifier, cb) \<in> set (listeners w)
      then (None, w\<lparr>listeners := removeAll (target, identifier, cb) (listeners w),
                     calls := calls w @ [Remove target identifier cb]\<rparr>)
      else (Some InvalidRequestError, w\<lparr>calls := calls w @ [Remove target identifier cb]\<rparr>))"

subsection \<open>The Query Log\<close>

text \<open>
  Modelled from the spec: \<^verbatim>\<open>SQLPanel.add_query\<close> (\<^verbatim>\<open>debug_toolbar/panels/sql.py\<close>) is
  not among the sources. The spec describes the Query Log as an append-only,
  request-scoped sequence of Timed-Query Records and \<^verbatim>\<open>add_query(url, record)\<close> as its
  append operation keyed by engine URL.
\<close>

definition add_query :: "nat \<Rightarrow> string \<Rightarrow> query \<Rightarrow> world \<Rightarrow> world" where
  "add_query self alias q w = w\<lparr>queries := (queries w)(self := queries w self @ [(alias, q)])\<rparr>"

subsection \<open>The panel\<close>

definition register :: "nat \<Rightarrow> engine \<Rightarrow> world \<Rightarrow> world" where
  "register self e w =
     event_listen e after_cursor_execute (AfterExecute self)
       (event_listen e before_cursor_execute (BeforeExecute self) w)"

definition unregister :: "nat \<Rightarrow> engine \<Rightarrow> world \<Rightarrow> exn option \<times> world" where
  "unregister self e w =
     (case event_remove e before_cursor_execute (BeforeExecute self) w of
        (Some x, w1) \<Rightarrow> (Some x, w1)
      | (None, w1) \<Rightarrow> event_remove e after_cursor_execute (AfterExecute self) w1)"

definition before_execute :: "nat \<Rightarrow> execution_context \<Rightarrow> world \<Rightarrow> execution_context" where
  "before_execute self ctx w = ctx\<lparr>start_time := Some (now w)\<rparr>"

definition after_execute :: "nat \<Rightarrow> execution_context \<Rightarrow> world \<Rightarrow> exn option \<times> world" where
  "after_execute self ctx w =
     (case start_time ctx of
        None \<Rightarrow> (Some AttributeError, w)
      | Some t0 \<Rightarrow>
          (None, add_query self (url (engine ctx))
                   \<lparr>duration = (now w - t0) * 1000, sql = statement ctx,
                    params = parameters ctx\<rparr> w))"

definition add_bind_to_engines :: "bind \<Rightarrow> panel \<Rightarrow> panel" where
  "add_bind_to_engines b p =
     (case b of
        ConnectionBind e \<Rightarrow> p\<lparr>engines := set_add e (engines p)\<rparr>
      | EngineBind e \<Rightarrow> p\<lparr>engines := set_add e (engines p)\<rparr>)"

text \<open>\<^verbatim>\<open>for bind in binds.values(): add_bind_to_engines(bind)\<close>\<close>

fun add_binds :: "bind list \<Rightarrow> panel \<Rightarrow> panel" where
  "add_binds [] p = p"
| "add_binds (b # bs) p = add_binds bs (add_bind_to_engines b p)"

text \<open>The value after \<^verbatim>\<open>if isinstance(value, AsyncSession): value = getattr(...)\<close>.\<close>

fun unwrap :: "dep_value \<Rightarrow> dep_value" where
  "unwrap (AsyncSessionValue (Some s)) = SessionValue s"
| "unwrap (AsyncSessionValue None) = OtherValue"
| "unwrap v = v"

text \<open>\<^verbatim>\<open>if binds:\<close> holds for a dictionary that is there and not empty.\<close>

fun truthy :: "bind list option \<Rightarrow> bool" where
  "truthy None = False"
| "truthy (Some bs) = (bs \<noteq> [])"

text \<open>The body of the loop over the resolved values.\<close>

definition inspect_value :: "dep_value \<Rightarrow> panel \<Rightarrow> exn option \<times> panel" where
  "inspect_value v p =
     (case unwrap v of
        SessionValue s \<Rightarrow>
          (if truthy (binds s) then (None, add_binds (the (binds s)) p)
           else (case get_bind s of
                   Inl x \<Rightarrow> (Some x, p)
                 | Inr b \<Rightarrow> (None, add_bind_to_engines b p)))
      | _ \<Rightarrow> (None, p))"

fun inspect_values :: "dep_value list \<Rightarrow> panel \<Rightarrow> exn option \<times> panel" where
  "inspect_values [] p = (None, p)"
| "inspect_values (v # vs) p =
     (case inspect_value v p of
        (Some x, p') \<Rightarrow> (Some x, p')
      | (None, p') \<Rightarrow> inspect_values vs p')"

definition add_engines :: "request \<Rightarrow> panel \<Rightarrow> exn option \<times> panel" where
  "add_engines req p =
     (case route req of
        None \<Rightarrow> (Some KeyError, p)
      | Some r \<Rightarrow>
          (case dependant r of
             None \<Rightarrow> (None, p)
           | Some d \<Rightarrow>
               (case solve_dependencies d of
                  Inl x \<Rightarrow> (if is_HTTPException x then (None, p) else (Some x, p))
                | Inr vs \<Rightarrow> inspect_values vs p)))"

text \<open>\<^verbatim>\<open>for engine in self.engines: self.register(engine)\<close>\<close>

fun register_all :: "nat \<Rightarrow> engine list \<Rightarrow> world \<Rightarrow> world" where
  "register_all self [] w = w"
| "register_all self (e # es) w = register_all self es (register self e w)"

text \<open>\<^verbatim>\<open>for engine in self.engines: self.unregister(engine)\<close>\<close>

fun unregister_all :: "nat \<Rightarrow> engine list \<Rightarrow> world \<Rightarrow> exn option \<times> world" where
  "unregister_all self [] w = (None, w)"
| "unregister_all self (e # es) w =
     (case unregister self e w of
        (Some x, w') \<Rightarrow> (Some x, w')
      | (None, w') \<Rightarrow> unregister_all self es w')"

text \<open>
  \<^verbatim>\<open>super().process_request\<close>, the method of the base panel, is not among the sources.
  It hands the request to the rest of the pipeline and is the parameter \<open>call_next\<close>
  here: any function that returns a response or raises, and may change the shared state
  on the way (the handler executes statements, and can reach the engines and the panel's
  \<^verbatim>\<open>register\<close> and \<^verbatim>\<open>unregister\<close>). An exception raised in the \<^verbatim>\<open>finally\<close> block
  replaces the outcome of the \<^verbatim>\<open>try\<close> block.
\<close>

definition process_request ::
  "(request \<Rightarrow> world \<Rightarrow> (exn + response) \<times> world) \<Rightarrow> request \<Rightarrow> panel \<Rightarrow> world
     \<Rightarrow> (exn + response) \<times> panel \<times> world" where
  "process_request call_next req p w =
     (case add_engines req p of
        (Some x, p') \<Rightarrow> (Inl x, p', w)
      | (None, p') \<Rightarrow>
          (let w1 = register_all (pid p') (engines p') w;
               (outcome, w2) = call_next req w1;
               (err, w3) = unregister_all (pid p') (engines p') w2
           in (case err of
                 Some x \<Rightarrow> (Inl x, p', w3)
               | None \<Rightarrow> (outcome, p', w3))))"

text \<open>
  A sequence of calls on one panel instance: each call gets the panel and the shared
  state as the call before left them, whether or not that call raised.
\<close>

datatype panel_op =
    AddEngines request
  | ProcessRequest "request \<Rightarrow> world \<Rightarrow> (exn + response) \<times> world" request

fun apply_ops :: "panel_op list \<Rightarrow> panel \<times> world \<Rightarrow> panel \<times> world" where
  "apply_ops [] pw = pw"
| "apply_ops (AddEngines req # ops) (p, w) = apply_ops ops (snd (add_engines req p), w)"
| "apply_ops (ProcessRequest call_next req # ops) (p, w) =
     apply_ops ops (snd (process_request call_next req p w))"

subsection \<open>Statements executed through an engine\<close>

text \<open>
  What the engine does with its listeners is again the library's: a statement executed
  through an engine gets a new execution context, the listeners registered on that engine
  for \<^verbatim>\<open>before_cursor_execute\<close> are called with it in registration order, the statement
  runs (for \<open>dt\<close> seconds of the clock), and the listeners registered for
  \<^verbatim>\<open>after_cursor_execute\<close> are called. An exception of a listener ends the execution.
  The engine calls every listener registered on it, whichever request the statement
  belongs to.
\<close>

definition invoke ::
  "callback \<Rightarrow> execution_context \<Rightarrow> world \<Rightarrow> exn option \<times> execution_context \<times> world" where
  "invoke cb ctx w =
     (case cb of
        BeforeExecute self \<Rightarrow> (None, before_execute self ctx w, w)
      | AfterExecute self \<Rightarrow> (case after_execute self ctx w of (r, w') \<Rightarrow> (r, ctx, w')))"

fun fire ::
  "callback list \<Rightarrow> execution_context \<Rightarrow> world \<Rightarrow> exn option \<times> execution_context \<times> world" where
  "fire [] ctx w = (None, ctx, w)"
| "fire (cb # cbs) ctx w =
     (case invoke cb ctx w of
        (Some x, ctx', w') \<Rightarrow> (Some x, ctx', w')
      | (None, ctx', w') \<Rightarrow> fire cbs ctx' w')"

definition listeners_for :: "engine \<Rightarrow> event_id \<Rightarrow> world \<Rightarrow> callback list" where
  "listeners_for e ev w =
     map (\<lambda>k. snd (snd k)) (filter (\<lambda>k. fst k = e \<and> fst (snd k) = ev) (listeners w))"

definition execute ::
  "engine \<Rightarrow> string \<Rightarrow> (string \<times> string) list \<Rightarrow> real \<Rightarrow> world \<Rightarrow> exn option \<times> world" where
  "execute e stmt ps dt w =
     (case fire (listeners_for e before_cursor_execute w)
             \<lparr>engine = e, statement = stmt, parameters = ps, start_time = None\<rparr> w of
        (Some x, ctx, w1) \<Rightarrow> (Some x, w1)
      | (None, ctx, w1) \<Rightarrow>
          (case fire (listeners_for e after_cursor_execute w1) ctx (w1\<lparr>now := now w1 + dt\<rparr>) of
             (r, ctx', w2) \<Rightarrow> (r, w2)))"

subsection \<open>Notions used in the statements\<close>

text \<open>Both listeners of the panel are registered on the engine.\<close>

definition installed :: "nat \<Rightarrow> engine \<Rightarrow> world \<Rightarrow> bool" where
  "installed self e w =
     ((e, before_cursor_execute, BeforeExecute self) \<in> set (listeners w)
      \<and> (e, after_cursor_execute, AfterExecute self) \<in> set (listeners w))"

text \<open>No listener of the panel is registered on the engine.\<close>

definition no_hooks :: "nat \<Rightarrow> engine \<Rightarrow> world \<Rightarrow> bool" where
  "no_hooks self e w =
     ((e, before_cursor_execute, BeforeExecute self) \<notin> set (listeners w)
      \<and> (e, after_cursor_execute, AfterExecute self) \<notin> set (listeners w))"

text \<open>The calls to \<^verbatim>\<open>event.remove\<close> that one \<^verbatim>\<open>unregister\<close> makes when it does not raise.\<close>

definition unregister_calls :: "nat \<Rightarrow> engine \<Rightarrow> call list" where
  "unregister_calls self e =
     [Remove e before_cursor_execute (BeforeExecute self),
      Remove e after_cursor_execute (AfterExecute self)]"

definition register_calls :: "nat \<Rightarrow> engine \<Rightarrow> call list" where
  "register_calls self e =
     [Listen e before_cursor_execute (BeforeExecute self),
      Listen e after_cursor_execute (AfterExecute self)]"

fun engine_of :: "bind \<Rightarrow> engine" where
  "engine_of (EngineBind e) = e"
| "engine_of (ConnectionBind e) = e"

text \<open>
  Every listener is registered for the event of its method, as \<^verbatim>\<open>register\<close> does it.
\<close>

fun own_event :: "engine \<times> event_id \<times> callback \<Rightarrow> bool" where
  "own_event (e, before_cursor_execute, BeforeExecute self) = True"
| "own_event (e, after_cursor_execute, AfterExecute self) = True"
| "own_event k = False"

subsection \<open>Inputs of the examples\<close>

definition E1 :: engine where
  "E1 = Engine 1 ''postgresql://db/app''"

definition E2 :: engine where
  "E2 = Engine 2 ''postgresql://db/shard''"

definition world0 :: world where
  "world0 = \<lparr>listeners = [], calls = [], queries = (\<lambda>i. []), now = 0\<rparr>"

definition request_of :: "exn + dep_value list \<Rightarrow> request" where
  "request_of solved = \<lparr>route = Some \<lparr>dependant = Some (Dependant solved)\<rparr>\<rparr>"

text \<open>A session bound to both engines, and a session with no bind at all.\<close>

definition sharded_session :: session where
  "sharded_session =
     \<lparr>binds = Some [EngineBind E1, ConnectionBind E2], get_bind = Inl UnboundExecutionError\<rparr>"

definition unbound_session :: session where
  "unbound_session = \<lparr>binds = Some [], get_bind = Inl UnboundExecutionError\<rparr>"

definition session_on :: "engine \<Rightarrow> session" where
  "session_on e = \<lparr>binds = Some [], get_bind = Inr (EngineBind e)\<rparr>"

text \<open>
  A session with \<open>E1\<close> in its binds dictionary and \<open>E2\<close> as its default bind, as
  \<^verbatim>\<open>Session(bind=E2, binds={table: E1})\<close> is.
\<close>

definition session_with_default_bind :: session where
  "session_with_default_bind = \<lparr>binds = Some [EngineBind E1], get_bind = Inr (EngineBind E2)\<rparr>"

text \<open>A handler that raises and touches nothing.\<close>

definition handler_raises :: "request \<Rightarrow> world \<Rightarrow> (exn + response) \<times> world" where
  "handler_raises req w = (Inl (RuntimeError ''boom''), w)"

text \<open>A handler that removes the hooks of panel 7 from \<open>E1\<close> by hand, then raises.\<close>

definition handler_unhooks_then_raises :: "request \<Rightarrow> world \<Rightarrow> (exn + response) \<times> world" where
  "handler_unhooks_then_raises req w = (Inl (RuntimeError ''boom''), snd (unregister 7 E1 w))"

text \<open>A handler that executes one statement through \<open>E1\<close> and returns.\<close>

definition handler_select :: "request \<Rightarrow> world \<Rightarrow> (exn + response) \<times> world" where
  "handler_select req w =
     (case execute E1 ''SELECT 1'' [] 2 w of
        (Some x, w') \<Rightarrow> (Inl x, w')
      | (None, w') \<Rightarrow> (Inr (Response 200 ''ok''), w'))"

text \<open>
  The handler of a first request, during which a second request (panel 8, same engine)
  is processed from start to end; the first request executes no statement itself.
\<close>

definition handler_waits_for_other :: "request \<Rightarrow> world \<Rightarrow> (exn + response) \<times> world" where
  "handler_waits_for_other req w =
     (case process_request handler_select (request_of (Inr [SessionValue (session_on E1)]))
             (init_panel 8) w of
        (outcome, p', w') \<Rightarrow> (Inr (Response 200 ''ok''), w'))"

section \<open>Engine discovery\<close>

subsection \<open>The engine set under discovery\<close>

lemma set_add_set: "set (set_add x xs) = insert x (set xs)"
  by (auto simp: set_add_def)

lemma set_add_distinct: "distinct xs \<Longrightarrow> distinct (set_add x xs)"
  by (simp add: set_add_def)

lemma add_bind_engines: "engines (add_bind_to_engines b p) = set_add (engine_of b) (engines p)"
  by (cases b) (simp_all add: add_bind_to_engines_def)

lemma add_bind_pid: "pid (add_bind_to_engines b p) = pid p"
  by (cases b) (simp_all add: add_bind_to_engines_def)

lemma add_binds_set: "set (engines (add_binds bs p)) = engine_of ` set bs \<union> set (engines p)"
  by (induction bs arbitrary: p) (auto simp: add_bind_engines set_add_set)

lemma add_binds_distinct: "distinct (engines p) \<Longrightarrow> distinct (engines (add_binds bs p))"
  by (induction bs arbitrary: p) (simp_all add: add_bind_engines set_add_distinct)

lemma add_binds_pid: "pid (add_binds bs p) = pid p"
  by (induction bs arbitrary: p) (simp_all add: add_bind_pid)

lemma inspect_value_grows: "set (engines p) \<subseteq> set (engines (snd (inspect_value v p)))"
  by (auto simp: inspect_value_def add_binds_set add_bind_engines set_add_set
      split: dep_value.splits sum.splits)

lemma inspect_value_distinct:
  "distinct (engines p) \<Longrightarrow> distinct (engines (snd (inspect_value v p)))"
  by (auto simp: inspect_value_def add_binds_distinct add_bind_engines set_add_distinct
      split: dep_value.splits sum.splits)

lemma inspect_value_pid: "pid (snd (inspect_value v p)) = pid p"
  by (auto simp: inspect_value_def add_binds_pid add_bind_pid
      split: dep_value.splits sum.splits)

lemma inspect_value_raises: "fst (inspect_value v p) = Some x \<Longrightarrow> snd (inspect_value v p) = p"
  by (auto simp: inspect_value_def split: dep_value.splits sum.splits if_splits)

lemma inspect_values_grows: "set (engines p) \<subseteq> set (engines (snd (inspect_values vs p)))"
proof (induction vs arbitrary: p)
  case Nil
  show ?case by simp
next
  case (Cons v vs)
  obtain r p' where step: "inspect_value v p = (r, p')"
    by (cases "inspect_value v p")
  have "set (engines p) \<subseteq> set (engines p')"
    using inspect_value_grows [of p v] step by simp
  moreover have "set (engines p') \<subseteq> set (engines (snd (inspect_values vs p')))"
    by (rule Cons.IH)
  ultimately show ?case
    using step by (cases r) auto
qed

lemma inspect_values_distinct:
  "distinct (engines p) \<Longrightarrow> distinct (engines (snd (inspect_values vs p)))"
proof (induction vs arbitrary: p)
  case Nil
  then show ?case by simp
next
  case (Cons v vs)
  obtain r p' where step: "inspect_value v p = (r, p')"
    by (cases "inspect_value v p")
  have d: "distinct (engines p')"
    using inspect_value_distinct [OF Cons.prems, of v] step by simp
  show ?case
    using step d Cons.IH [OF d] by (cases r) auto
qed

lemma inspect_values_pid: "pid (snd (inspect_values vs p)) = pid p"
proof (induction vs arbitrary: p)
  case Nil
  show ?case by simp
next
  case (Cons v vs)
  obtain r p' where step: "inspect_value v p = (r, p')"
    by (cases "inspect_value v p")
  have "pid p' = pid p"
    using inspect_value_pid [of v p] step by simp
  then show ?case
    using step Cons.IH [of p'] by (cases r) auto
qed

lemma add_engines_grows: "set (engines p) \<subseteq> set (engines (snd (add_engines req p)))"
  using inspect_values_grows
  by (auto simp: add_engines_def split: option.splits sum.splits)

lemma add_engines_distinct:
  "distinct (engines p) \<Longrightarrow> distinct (engines (snd (add_engines req p)))"
  using inspect_values_distinct
  by (auto simp: add_engines_def split: option.splits sum.splits)

lemma add_engines_pid: "pid (snd (add_engines req p)) = pid p"
  using inspect_values_pid
  by (auto simp: add_engines_def split: option.splits sum.splits)

lemma inspect_values_append:
  "fst (inspect_values pre p) = None \<Longrightarrow>
   inspect_values (pre @ vs) p = inspect_values vs (snd (inspect_values pre p))"
proof (induction pre arbitrary: p)
  case Nil
  show ?case by simp
next
  case (Cons v pre)
  obtain r p' where step: "inspect_value v p = (r, p')"
    by (cases "inspect_value v p")
  show ?case
  proof (cases r)
    case None
    then show ?thesis using step Cons by simp
  next
    case (Some x)
    then show ?thesis using step Cons.prems by simp
  qed
qed

lemma count_list_distinct: "distinct xs \<Longrightarrow> count_list xs x = (if x \<in> set xs then 1 else 0)"
  by (induction xs) auto

lemma inspect_value_sharded:
  "unwrap v = SessionValue s \<Longrightarrow> binds s = Some bs \<Longrightarrow> bs \<noteq> [] \<Longrightarrow>
   inspect_value v p = (None, add_binds bs p)"
  by (simp add: inspect_value_def)

lemma inspect_values_keeps_sharded:
  "fst (inspect_values vs p) = None \<Longrightarrow> v \<in> set vs \<Longrightarrow> unwrap v = SessionValue s \<Longrightarrow>
   binds s = Some bs \<Longrightarrow> bs \<noteq> [] \<Longrightarrow>
   engine_of ` set bs \<subseteq> set (engines (snd (inspect_values vs p)))"
proof (induction vs arbitrary: p)
  case Nil
  then show ?case by simp
next
  case (Cons u vs)
  obtain r p' where step: "inspect_value u p = (r, p')"
    by (cases "inspect_value u p")
  have r: "r = None"
    using Cons.prems(1) step by (cases r) auto
  have rest: "fst (inspect_values vs p') = None"
    using Cons.prems(1) step r by simp
  show ?case
  proof (cases "v = u")
    case True
    have "p' = add_binds bs p"
      using inspect_value_sharded [OF Cons.prems(3-5), of p] step True by simp
    then have "engine_of ` set bs \<subseteq> set (engines p')"
      by (simp add: add_binds_set)
    then show ?thesis
      using inspect_values_grows [of p' vs] step r by auto
  next
    case False
    then have "v \<in> set vs"
      using Cons.prems(2) by simp
    then show ?thesis
      using Cons.IH [OF rest _ Cons.prems(3-5)] step r by simp
  qed
qed

lemma process_request_panel:
  "fst (snd (process_request call_next req p w)) = snd (add_engines req p)"
  by (auto simp: process_request_def Let_def split: prod.splits option.splits)

lemma inspect_value_single:
  "unwrap v = SessionValue s \<Longrightarrow> \<not> truthy (binds s) \<Longrightarrow> get_bind s = Inr b \<Longrightarrow>
   inspect_value v p = (None, add_bind_to_engines b p)"
  by (simp add: inspect_value_def)

subsection \<open>No engine twice\<close>

text \<open>
  C6, as stated, fails in its second half: a session with \<open>E1\<close> in its binds dictionary
  and \<open>E2\<close> as its default bind is bound to both, and discovery adds \<open>E1\<close> only. A
  session bound to both engines that comes after a value whose inspection raises is not
  inspected at all.
\<close>

theorem bound_engine_missing_counterexample:
  "add_engines (request_of (Inr [SessionValue session_with_default_bind])) (init_panel 7)
     = (None, \<lparr>pid = 7, engines = [E1]\<rparr>)
   \<and> get_bind session_with_default_bind = Inr (EngineBind E2)
   \<and> E2 \<notin> set (engines (snd (add_engines
         (request_of (Inr [SessionValue session_with_default_bind])) (init_panel 7))))
   \<and> add_engines (request_of (Inr [SessionValue unbound_session, SessionValue sharded_session]))
         (init_panel 7)
     = (Some UnboundExecutionError, init_panel 7)"
  by (simp add: init_panel_def request_of_def session_with_default_bind_def unbound_session_def
      sharded_session_def add_engines_def inspect_value_def add_bind_to_engines_def set_add_def
      E1_def E2_def)

text \<open>
  C6, amended: the engine set has every engine at most once, after discovery and after
  \<^verbatim>\<open>process_request\<close>, however many resolved values lead to it. For a resolved session,
  or the session inside a resolved \<^verbatim>\<open>AsyncSession\<close>, whose binds dictionary is not empty,
  the inspection does not raise and adds the engines of the binds in that dictionary and
  nothing else, each exactly once; \<^verbatim>\<open>get_bind()\<close> is not asked, so a default bind
  outside the dictionary is not added. A session with no such dictionary contributes the
  engine of \<^verbatim>\<open>get_bind()\<close>, once; any other value contributes nothing. A discovery
  that returns normally has, exactly once each, the dictionary's engines of every such
  session among the resolved values.
\<close>

theorem discovery_adds_binds_once:
  assumes "distinct (engines p)"
  shows "(\<forall>e. count_list (engines (snd (add_engines req p))) e \<le> 1)
    \<and> (\<forall>e. count_list (engines (fst (snd (process_request call_next req p w)))) e \<le> 1)
    \<and> ((v = SessionValue s \<or> v = AsyncSessionValue (Some s)) \<and> binds s = Some bs \<and> bs \<noteq> [] \<longrightarrow>
          fst (inspect_value v p) = None
          \<and> set (engines (snd (inspect_value v p))) = engine_of ` set bs \<union> set (engines p)
          \<and> (\<forall>b\<in>set bs. count_list (engines (snd (inspect_value v p))) (engine_of b) = 1))
    \<and> ((v = SessionValue s \<or> v = AsyncSessionValue (Some s)) \<and> \<not> truthy (binds s)
          \<and> get_bind s = Inr b \<longrightarrow>
          fst (inspect_value v p) = None
          \<and> set (engines (snd (inspect_value v p))) = insert (engine_of b) (set (engines p))
          \<and> count_list (engines (snd (inspect_value v p))) (engine_of b) = 1)
    \<and> (v = OtherValue \<or> v = AsyncSessionValue None \<longrightarrow> inspect_value v p = (None, p))
    \<and> (route req = Some r \<and> dependant r = Some d \<and> solve_dependencies d = Inr vs
          \<and> fst (add_engines req p) = None \<and> v \<in> set vs
          \<and> (v = SessionValue s \<or> v = AsyncSessionValue (Some s))
          \<and> binds s = Some bs \<and> bs \<noteq> [] \<longrightarrow>
          (\<forall>b\<in>set bs. count_list (engines (snd (add_engines req p))) (engine_of b) = 1))"
proof -
  have d: "distinct (engines (snd (add_engines req p)))"
    by (rule add_engines_distinct [OF assms])
  have one: "\<forall>e. count_list (engines (snd (add_engines req p))) e \<le> 1"
    by (simp add: count_list_distinct [OF d])
  have two: "\<forall>e. count_list (engines (fst (snd (process_request call_next req p w)))) e \<le> 1"
    using one by (simp add: process_request_panel)
  have un: "unwrap v = SessionValue s"
    if "v = SessionValue s \<or> v = AsyncSessionValue (Some s)"
    using that by auto
  have three: "fst (inspect_value v p) = None
      \<and> set (engines (snd (inspect_value v p))) = engine_of ` set bs \<union> set (engines p)
      \<and> (\<forall>b\<in>set bs. count_list (engines (snd (inspect_value v p))) (engine_of b) = 1)"
    if v: "v = SessionValue s \<or> v = AsyncSessionValue (Some s)"
      and bs: "binds s = Some bs" "bs \<noteq> []"
  proof -
    have eq: "inspect_value v p = (None, add_binds bs p)"
      by (rule inspect_value_sharded [OF un [OF v] bs])
    have "distinct (engines (add_binds bs p))"
      by (rule add_binds_distinct [OF assms])
    then show ?thesis
      by (simp add: eq count_list_distinct add_binds_set)
  qed
  have four: "fst (inspect_value v p) = None
      \<and> set (engines (snd (inspect_value v p))) = insert (engine_of b) (set (engines p))
      \<and> count_list (engines (snd (inspect_value v p))) (engine_of b) = 1"
    if v: "v = SessionValue s \<or> v = AsyncSessionValue (Some s)"
      and nb: "\<not> truthy (binds s)" and gb: "get_bind s = Inr b"
  proof -
    have eq: "inspect_value v p = (None, add_bind_to_engines b p)"
      by (rule inspect_value_single [OF un [OF v] nb gb])
    have "distinct (engines (add_bind_to_engines b p))"
      using assms by (simp add: add_bind_engines set_add_distinct)
    then show ?thesis
      by (simp add: eq count_list_distinct add_bind_engines set_add_set)
  qed
  have five: "inspect_value v p = (None, p)"
    if "v = OtherValue \<or> v = AsyncSessionValue None"
    using that by (auto simp: inspect_value_def)
  have six: "\<forall>b\<in>set bs. count_list (engines (snd (add_engines req p))) (engine_of b) = 1"
    if req: "route req = Some r" "dependant r = Some d" "solve_dependencies d = Inr vs"
      and ok: "fst (add_engines req p) = None" and mem: "v \<in> set vs"
      and v: "v = SessionValue s \<or> v = AsyncSessionValue (Some s)"
      and bs: "binds s = Some bs" "bs \<noteq> []"
  proof -
    have eq: "add_engines req p = inspect_values vs p"
      using req by (simp add: add_engines_def)
    have "engine_of ` set bs \<subseteq> set (engines (snd (inspect_values vs p)))"
      using inspect_values_keeps_sharded [of vs p v s bs] ok mem un [OF v] bs eq by simp
    then show ?thesis
      using d by (auto simp: eq count_list_distinct)
  qed
  have c3: "(v = SessionValue s \<or> v = AsyncSessionValue (Some s)) \<and> binds s = Some bs
        \<and> bs \<noteq> [] \<longrightarrow>
      fst (inspect_value v p) = None
      \<and> set (engines (snd (inspect_value v p))) = engine_of ` set bs \<union> set (engines p)
      \<and> (\<forall>b\<in>set bs. count_list (engines (snd (inspect_value v p))) (engine_of b) = 1)"
    by (intro impI, elim conjE, rule three)
  have c4: "(v = SessionValue s \<or> v = AsyncSessionValue (Some s)) \<and> \<not> truthy (binds s)
        \<and> get_bind s = Inr b \<longrightarrow>
      fst (inspect_value v p) = None
      \<and> set (engines (snd (inspect_value v p))) = insert (engine_of b) (set (engines p))
      \<and> count_list (engines (snd (inspect_value v p))) (engine_of b) = 1"
    by (intro impI, elim conjE, rule four)
  have c5: "v = OtherValue \<or> v = AsyncSessionValue None \<longrightarrow> inspect_value v p = (None, p)"
    by (intro impI, rule five)
  have c6: "route req = Some r \<and> dependant r = Some d \<and> solve_dependencies d = Inr vs
        \<and> fst (add_engines req p) = None \<and> v \<in> set vs
        \<and> (v = SessionValue s \<or> v = AsyncSessionValue (Some s))
        \<and> binds s = Some bs \<and> bs \<noteq> [] \<longrightarrow>
      (\<forall>b\<in>set bs. count_list (engines (snd (add_engines req p))) (engine_of b) = 1)"
    by (intro impI, elim conjE, rule six)
  show ?thesis
    by (intro conjI) (rule one, rule two, rule c3, rule c4, rule c5, rule c6)
qed

theorem discovery_adds_binds_once_witness:
  "add_engines (request_of (Inr [AsyncSessionValue (Some sharded_session)])) (init_panel 7)
     = (None, \<lparr>pid = 7, engines = [E1, E2]\<rparr>)
   \<and> count_list (engines (snd (add_engines
         (request_of (Inr [AsyncSessionValue (Some sharded_session)])) (init_panel 7)))) E2 = 1
   \<and> set (engines (snd (inspect_value (AsyncSessionValue (Some sharded_session)) (init_panel 7))))
       = {E1, E2}"
  using discovery_adds_binds_once
    [of "init_panel 7"
        "request_of (Inr [AsyncSessionValue (Some sharded_session)])"
        handler_select world0
        "AsyncSessionValue (Some sharded_session)" sharded_session
        "[EngineBind E1, ConnectionBind E2]" "EngineBind E1"
        "\<lparr>dependant = Some (Dependant (Inr [AsyncSessionValue (Some sharded_session)]))\<rparr>"
        "Dependant (Inr [AsyncSessionValue (Some sharded_session)])"
        "[AsyncSessionValue (Some sharded_session)]"]
  by (simp add: init_panel_def request_of_def sharded_session_def add_engines_def
      inspect_value_def add_bind_to_engines_def set_add_def E1_def E2_def)

subsection \<open>An exception while a value is inspected\<close>

text \<open>
  C4, as stated, fails: a session without binds whose \<^verbatim>\<open>get_bind()\<close> raises ends the
  discovery with that exception, and the engine of the value after it is not found
  (alone, that value gives \<open>E1\<close>). An exception of the resolution that is not an
  \<^verbatim>\<open>HTTPException\<close> leaves \<^verbatim>\<open>add_engines\<close> too.
\<close>

theorem add_engines_isolation_counterexample:
  "add_engines (request_of (Inr [SessionValue unbound_session, SessionValue (session_on E1)]))
     (init_panel 7) = (Some UnboundExecutionError, init_panel 7)
   \<and> add_engines (request_of (Inr [SessionValue (session_on E1)])) (init_panel 7)
     = (None, \<lparr>pid = 7, engines = [E1]\<rparr>)
   \<and> add_engines (request_of (Inl (RuntimeError ''dependency failed''))) (init_panel 7)
     = (Some (RuntimeError ''dependency failed''), init_panel 7)"
  by (simp add: init_panel_def request_of_def unbound_session_def session_on_def add_engines_def
      inspect_value_def add_bind_to_engines_def set_add_def)

text \<open>
  C4, amended: discovery inspects the resolved values in order and stops at the first
  value whose inspection raises, which is a session with no multi-engine binds whose
  \<^verbatim>\<open>get_bind()\<close> raises. That exception leaves \<^verbatim>\<open>add_engines\<close>, with the engines of the
  values before it in the set and the values after it not inspected; an exception of the
  resolution other than \<^verbatim>\<open>HTTPException\<close> leaves it as well. Either way
  \<^verbatim>\<open>process_request\<close> raises it before any hook is installed.
\<close>

theorem add_engines_stops_at_first_failure:
  "(route req = Some r \<and> dependant r = Some d \<and> solve_dependencies d = Inr (pre @ v # post)
      \<and> fst (inspect_values pre p) = None
      \<and> fst (inspect_value v (snd (inspect_values pre p))) = Some x
    \<longrightarrow> add_engines req p = (Some x, snd (inspect_values pre p)))
   \<and> (route req = Some r \<and> dependant r = Some d \<and> solve_dependencies d = Inl x
      \<and> \<not> is_HTTPException x
    \<longrightarrow> add_engines req p = (Some x, p))
   \<and> (fst (add_engines req p) = Some x
    \<longrightarrow> process_request call_next req p w = (Inl x, snd (add_engines req p), w))
   \<and> (fst (inspect_value v p) = Some x
    \<longleftrightarrow> (\<exists>s. unwrap v = SessionValue s \<and> \<not> truthy (binds s) \<and> get_bind s = Inl x))"
proof -
  have one: "add_engines req p = (Some x, snd (inspect_values pre p))"
    if "route req = Some r" "dependant r = Some d" "solve_dependencies d = Inr (pre @ v # post)"
      "fst (inspect_values pre p) = None"
      "fst (inspect_value v (snd (inspect_values pre p))) = Some x"
  proof -
    have "add_engines req p = inspect_values (v # post) (snd (inspect_values pre p))"
      using that(1-3) inspect_values_append [OF that(4)] by (simp add: add_engines_def)
    moreover have "snd (inspect_value v (snd (inspect_values pre p))) = snd (inspect_values pre p)"
      by (rule inspect_value_raises [OF that(5)])
    ultimately show ?thesis
      using that(5) by (cases "inspect_value v (snd (inspect_values pre p))") auto
  qed
  have two: "add_engines req p = (Some x, p)"
    if "route req = Some r" "dependant r = Some d" "solve_dependencies d = Inl x"
      "\<not> is_HTTPException x"
    using that by (simp add: add_engines_def)
  have three: "process_request call_next req p w = (Inl x, snd (add_engines req p), w)"
    if "fst (add_engines req p) = Some x"
    using that by (cases "add_engines req p") (auto simp: process_request_def)
  have four: "fst (inspect_value v p) = Some x
    \<longleftrightarrow> (\<exists>s. unwrap v = SessionValue s \<and> \<not> truthy (binds s) \<and> get_bind s = Inl x)"
    by (auto simp: inspect_value_def split: dep_value.splits sum.splits)
  show ?thesis
    using one two three four by blast
qed

theorem add_engines_stops_at_first_failure_witness:
  "add_engines (request_of (Inr [SessionValue (session_on E1), SessionValue unbound_session,
       SessionValue (session_on E2)])) (init_panel 7)
   = (Some UnboundExecutionError, \<lparr>pid = 7, engines = [E1]\<rparr>)"
  using add_engines_stops_at_first_failure
    [of "request_of (Inr [SessionValue (session_on E1), SessionValue unbound_session,
           SessionValue (session_on E2)])"
        "\<lparr>dependant = Some (Dependant (Inr [SessionValue (session_on E1),
           SessionValue unbound_session, SessionValue (session_on E2)]))\<rparr>"
        "Dependant (Inr [SessionValue (session_on E1), SessionValue unbound_session,
           SessionValue (session_on E2)])"
        "[SessionValue (session_on E1)]" "SessionValue unbound_session"
        "[SessionValue (session_on E2)]" "init_panel 7" UnboundExecutionError]
  by (simp add: init_panel_def request_of_def unbound_session_def session_on_def
      inspect_value_def add_bind_to_engines_def set_add_def)

subsection \<open>The swallowed resolution error\<close>

text \<open>
  C5: when resolving the dependency graph raises \<^verbatim>\<open>HTTPException\<close>, discovery returns
  normally and leaves the engine set as it was.
\<close>

theorem add_engines_swallows_HTTPException:
  "route req = Some r \<Longrightarrow> dependant r = Some d \<Longrightarrow>
   solve_dependencies d = Inl (HTTPException code) \<Longrightarrow>
   add_engines req p = (None, p)"
  by (simp add: add_engines_def)

theorem add_engines_swallows_HTTPException_witness:
  "add_engines (request_of (Inl (HTTPException 401))) (init_panel 7) = (None, init_panel 7)"
  using add_engines_swallows_HTTPException
    [of "request_of (Inl (HTTPException 401))"
        "\<lparr>dependant = Some (Dependant (Inl (HTTPException 401)))\<rparr>"
        "Dependant (Inl (HTTPException 401))" 401 "init_panel 7"]
  by (simp add: request_of_def)

section \<open>The timing callbacks\<close>

text \<open>
  C9: the after callback raises on an execution context that has no start timestamp
  (the before callback has not run on it) and leaves the Query Log as it was; once the
  before callback has run on the context, the after callback does not raise.
\<close>

theorem after_execute_needs_before_execute:
  "(start_time ctx = None \<longrightarrow> after_execute self ctx w = (Some AttributeError, w))
   \<and> fst (after_execute self (before_execute self' ctx w0) w) = None"
  by (simp add: after_execute_def before_execute_def)

theorem after_execute_needs_before_execute_witness:
  "after_execute 1 \<lparr>engine = Engine 0 ''sqlite://'', statement = ''SELECT 1'',
                     parameters = [], start_time = None\<rparr>
     \<lparr>listeners = [], calls = [], queries = (\<lambda>i. []), now = 5\<rparr>
   = (Some AttributeError, \<lparr>listeners = [], calls = [], queries = (\<lambda>i. []), now = 5\<rparr>)"
  using after_execute_needs_before_execute
    [of "\<lparr>engine = Engine 0 ''sqlite://'', statement = ''SELECT 1'',
          parameters = [], start_time = None\<rparr>" 1
        "\<lparr>listeners = [], calls = [], queries = (\<lambda>i. []), now = 5\<rparr>"]
  by simp

text \<open>
  C7: the after callback, run on the context on which the before callback has recorded
  the start, appends exactly one record to the Query Log of its panel, under the URL of
  the engine: the duration is the clock's advance since the start times 1000, the
  statement and the parameters are those of the context. The clock is monotonic, so
  the duration is not negative. (Timestamps are real numbers here; the rounding of the
  floating-point subtraction and product is not modelled.)
\<close>

theorem after_execute_appends_one_record:
  assumes "now w0 \<le> now w1"
  shows "after_execute self (before_execute self ctx w0) w1 =
           (None, w1\<lparr>queries := (queries w1)
              (self := queries w1 self @
                 [(url (engine ctx),
                   \<lparr>duration = (now w1 - now w0) * 1000, sql = statement ctx,
                    params = parameters ctx\<rparr>)])\<rparr>)
         \<and> 0 \<le> (now w1 - now w0) * 1000"
  using assms by (simp add: after_execute_def before_execute_def add_query_def)

theorem after_execute_appends_one_record_witness:
  "queries (snd (after_execute 7
      (before_execute 7 \<lparr>engine = E1, statement = ''SELECT 1'', parameters = [],
                           start_time = None\<rparr> world0)
      (world0\<lparr>now := 2\<rparr>))) 7
   = [(''postgresql://db/app'', \<lparr>duration = 2000, sql = ''SELECT 1'', params = []\<rparr>)]"
  using after_execute_appends_one_record
    [of world0 "world0\<lparr>now := 2\<rparr>" 7
        "\<lparr>engine = E1, statement = ''SELECT 1'', parameters = [], start_time = None\<rparr>"]
  by (simp add: world0_def E1_def)

section \<open>Hooks and cleanup\<close>

subsection \<open>The listeners of a panel on an engine\<close>

lemma event_remove_queries: "queries (snd (event_remove e ev cb w)) = queries w"
  by (simp add: event_remove_def)

lemma unregister_queries: "queries (snd (unregister self e w)) = queries w"
  by (auto simp: unregister_def event_remove_def split: prod.splits option.splits if_splits)

lemma unregister_installed:
  "installed self e w \<Longrightarrow>
   unregister self e w =
     (None, w\<lparr>listeners := removeAll (e, after_cursor_execute, AfterExecute self)
                 (removeAll (e, before_cursor_execute, BeforeExecute self) (listeners w)),
              calls := calls w @ unregister_calls self e\<rparr>)"
  by (simp add: installed_def unregister_def event_remove_def unregister_calls_def)

lemma unregister_not_installed:
  "\<not> installed self e w \<Longrightarrow> fst (unregister self e w) = Some InvalidRequestError"
  by (auto simp: installed_def unregister_def event_remove_def)

lemma unregister_None_iff: "fst (unregister self e w) = None \<longleftrightarrow> installed self e w"
  using unregister_installed [of self e w] unregister_not_installed [of self e w]
  by (cases "installed self e w") auto

lemma unregister_no_hooks:
  "installed self e w \<Longrightarrow> no_hooks self e (snd (unregister self e w))"
  by (simp add: unregister_installed no_hooks_def)

lemma register_installed: "installed self e (register self e w)"
  by (auto simp: installed_def register_def event_listen_def set_add_def)

lemma no_hooks_not_installed: "no_hooks self e w \<Longrightarrow> \<not> installed self e w"
  by (simp add: no_hooks_def installed_def)

lemma unregister_listeners_subset:
  "set (listeners (snd (unregister self e w))) \<subseteq> set (listeners w)"
  by (auto simp: unregister_def event_remove_def split: prod.splits option.splits if_splits)

lemma unregister_other_engine:
  "e' \<noteq> e \<Longrightarrow> installed self e' (snd (unregister self e w)) = installed self e' w"
  by (auto simp: installed_def unregister_def event_remove_def
      split: prod.splits option.splits if_splits)

lemma unregister_all_listeners_subset:
  "set (listeners (snd (unregister_all self es w))) \<subseteq> set (listeners w)"
proof (induction es arbitrary: w)
  case Nil
  show ?case by simp
next
  case (Cons e es)
  obtain r w' where step: "unregister self e w = (r, w')"
    by (cases "unregister self e w")
  have "set (listeners w') \<subseteq> set (listeners w)"
    using unregister_listeners_subset [of self e w] step by simp
  then show ?case
    using step Cons.IH [of w'] by (cases r) auto
qed

lemma unregister_all_other_engine:
  "e' \<notin> set es \<Longrightarrow> installed self e' (snd (unregister_all self es w)) = installed self e' w"
proof (induction es arbitrary: w)
  case Nil
  show ?case by simp
next
  case (Cons e es)
  obtain r w' where step: "unregister self e w = (r, w')"
    by (cases "unregister self e w")
  have "installed self e' w' = installed self e' w"
    using unregister_other_engine [of e' e self w] Cons.prems step by simp
  then show ?case
    using step Cons.IH [of w'] Cons.prems by (cases r) auto
qed

lemma unregister_all_queries: "queries (snd (unregister_all self es w)) = queries w"
proof (induction es arbitrary: w)
  case Nil
  show ?case by simp
next
  case (Cons e es)
  obtain r w' where step: "unregister self e w = (r, w')"
    by (cases "unregister self e w")
  have "queries w' = queries w"
    using unregister_queries [of self e w] step by simp
  then show ?case
    using step Cons.IH [of w'] by (cases r) auto
qed

lemma unregister_all_append:
  "fst (unregister_all self pre w) = None \<Longrightarrow>
   unregister_all self (pre @ es) w = unregister_all self es (snd (unregister_all self pre w))"
proof (induction pre arbitrary: w)
  case Nil
  show ?case by simp
next
  case (Cons e pre)
  obtain r w' where step: "unregister self e w = (r, w')"
    by (cases "unregister self e w")
  show ?case
  proof (cases r)
    case None
    then show ?thesis using step Cons by simp
  next
    case (Some x)
    then show ?thesis using step Cons.prems by simp
  qed
qed

lemma unregister_all_calls:
  "fst (unregister_all self es w) = None \<Longrightarrow>
   calls (snd (unregister_all self es w)) = calls w @ concat (map (unregister_calls self) es)"
proof (induction es arbitrary: w)
  case Nil
  show ?case by simp
next
  case (Cons e es)
  obtain r w' where step: "unregister self e w = (r, w')"
    by (cases "unregister self e w")
  have r: "r = None"
    using Cons.prems step by (cases r) auto
  then have "installed self e w"
    using unregister_None_iff [of self e w] step by simp
  then have "calls w' = calls w @ unregister_calls self e"
    using unregister_installed [of self e w] step by simp
  moreover have "fst (unregister_all self es w') = None"
    using Cons.prems step r by simp
  ultimately show ?case
    using step r Cons.IH [of w'] by simp
qed

lemma unregister_all_installed:
  "distinct es \<Longrightarrow> \<forall>e\<in>set es. installed self e w \<Longrightarrow>
   fst (unregister_all self es w) = None
   \<and> (\<forall>e\<in>set es. no_hooks self e (snd (unregister_all self es w)))"
proof (induction es arbitrary: w)
  case Nil
  show ?case by simp
next
  case (Cons e es)
  have inst: "installed self e w"
    using Cons.prems(2) by simp
  obtain w' where step: "unregister self e w = (None, w')"
    using unregister_installed [OF inst] by simp
  have gone: "no_hooks self e w'"
    using unregister_no_hooks [OF inst] step by simp
  have others: "\<forall>e'\<in>set es. installed self e' w'"
  proof
    fix e' assume e': "e' \<in> set es"
    then have "e' \<noteq> e" using Cons.prems(1) by auto
    then show "installed self e' w'"
      using unregister_other_engine [of e' e self w] step Cons.prems(2) e' by simp
  qed
  have ih: "fst (unregister_all self es w') = None
      \<and> (\<forall>e\<in>set es. no_hooks self e (snd (unregister_all self es w')))"
    using Cons.IH [OF _ others] Cons.prems(1) by simp
  have "no_hooks self e (snd (unregister_all self es w'))"
    using gone unregister_all_listeners_subset [of self es w'] by (auto simp: no_hooks_def)
  then show ?case
    using step ih by simp
qed

subsection \<open>Removing hooks that are not there\<close>

text \<open>
  C2, as stated, fails: \<^verbatim>\<open>unregister\<close> on an engine that was never registered raises
  \<^verbatim>\<open>InvalidRequestError\<close>, and so does the second of two calls after a \<^verbatim>\<open>register\<close>.
\<close>

theorem unregister_idempotence_counterexample:
  "fst (unregister 7 E1 world0) = Some InvalidRequestError
   \<and> fst (unregister 7 E1 (register 7 E1 world0)) = None
   \<and> fst (unregister 7 E1 (snd (unregister 7 E1 (register 7 E1 world0))))
       = Some InvalidRequestError"
  by (simp add: unregister_def register_def event_remove_def event_listen_def set_add_def
      world0_def E1_def)

text \<open>
  C2, amended: \<^verbatim>\<open>unregister\<close> never alters the Query Log. It returns normally exactly
  when both listeners of the panel are registered on the engine, and then removes them;
  on an engine never registered or already unregistered it raises
  \<^verbatim>\<open>InvalidRequestError\<close>, so a second call after a successful one raises. After
  \<^verbatim>\<open>register\<close> it returns normally.
\<close>

theorem unregister_raises_unless_installed:
  "queries (snd (unregister self e w)) = queries w
   \<and> (fst (unregister self e w) = None \<longleftrightarrow> installed self e w)
   \<and> (\<not> installed self e w \<longrightarrow> fst (unregister self e w) = Some InvalidRequestError)
   \<and> (installed self e w \<longrightarrow>
        no_hooks self e (snd (unregister self e w))
        \<and> fst (unregister self e (snd (unregister self e w))) = Some InvalidRequestError)
   \<and> fst (unregister self e (register self e w)) = None"
  using unregister_queries [of self e w] unregister_None_iff [of self e w]
    unregister_not_installed [of self e w] unregister_no_hooks [of self e w]
    unregister_not_installed [of self e "snd (unregister self e w)"]
    no_hooks_not_installed [of self e "snd (unregister self e w)"]
    unregister_None_iff [of self e "register self e w"] register_installed [of self e w]
  by blast

theorem unregister_raises_unless_installed_witness:
  "\<not> installed 7 E1 world0 \<and> fst (unregister 7 E1 world0) = Some InvalidRequestError
   \<and> installed 7 E1 (register 7 E1 world0)
   \<and> no_hooks 7 E1 (snd (unregister 7 E1 (register 7 E1 world0)))"
  using unregister_raises_unless_installed [of 7 E1 world0]
    unregister_raises_unless_installed [of 7 E1 "register 7 E1 world0"]
  by (simp add: installed_def register_def event_listen_def set_add_def world0_def)

subsection \<open>The cleanup loop\<close>

text \<open>
  C3, as stated, fails: both engines are hooked, the hooks of \<open>E1\<close> are taken away, and
  the cleanup over \<open>E1\<close>, \<open>E2\<close> raises at \<open>E1\<close>; no \<^verbatim>\<open>event.remove\<close> is called for
  \<open>E2\<close>, whose hooks stay.
\<close>

theorem unregister_all_counterexample:
  "fst (unregister_all 7 [E1, E2] (snd (unregister 7 E1 (register_all 7 [E1, E2] world0))))
     = Some InvalidRequestError
   \<and> installed 7 E2 (snd (unregister_all 7 [E1, E2]
        (snd (unregister 7 E1 (register_all 7 [E1, E2] world0)))))
   \<and> Remove E2 before_cursor_execute (BeforeExecute 7) \<notin> set (calls (snd (unregister_all 7 [E1, E2]
        (snd (unregister 7 E1 (register_all 7 [E1, E2] world0))))))"
  by (simp add: unregister_def register_def event_remove_def event_listen_def set_add_def
      installed_def world0_def E1_def E2_def)

text \<open>
  C3, amended: the cleanup calls \<^verbatim>\<open>unregister\<close> on the engines in the order of
  iteration and stops at the first one that raises: its result is that of this call, and
  the engines after it get no attempt (the hooks of those not met before are as they
  were). When the loop does not raise, it has made the two removals for every engine, in
  order.
\<close>

theorem unregister_all_stops_at_first_failure:
  "(fst (unregister_all self pre w) = None
      \<and> fst (unregister self e (snd (unregister_all self pre w))) = Some x
    \<longrightarrow> unregister_all self (pre @ e # post) w
          = unregister self e (snd (unregister_all self pre w))
        \<and> (\<forall>e'\<in>set post. e' \<notin> set pre \<and> e' \<noteq> e \<longrightarrow>
             installed self e' (snd (unregister_all self (pre @ e # post) w))
               = installed self e' w))
   \<and> (fst (unregister_all self es w) = None
    \<longrightarrow> calls (snd (unregister_all self es w))
          = calls w @ concat (map (unregister_calls self) es))"
proof -
  have one: "unregister_all self (pre @ e # post) w
          = unregister self e (snd (unregister_all self pre w))
        \<and> (\<forall>e'\<in>set post. e' \<notin> set pre \<and> e' \<noteq> e \<longrightarrow>
             installed self e' (snd (unregister_all self (pre @ e # post) w))
               = installed self e' w)"
    if a: "fst (unregister_all self pre w) = None"
      and b: "fst (unregister self e (snd (unregister_all self pre w))) = Some x"
  proof -
    have eq: "unregister_all self (pre @ e # post) w
          = unregister self e (snd (unregister_all self pre w))"
      using unregister_all_append [OF a, of "e # post"] b
      by (cases "unregister self e (snd (unregister_all self pre w))") auto
    have "installed self e' (snd (unregister self e (snd (unregister_all self pre w))))
               = installed self e' w"
      if "e' \<notin> set pre" "e' \<noteq> e" for e'
      using that unregister_other_engine [of e' e self "snd (unregister_all self pre w)"]
        unregister_all_other_engine [of e' pre self w] by simp
    then show ?thesis
      using eq by simp
  qed
  show ?thesis
    using one unregister_all_calls [of self es w] by blast
qed

theorem unregister_all_stops_at_first_failure_witness:
  "unregister_all 7 ([E1] @ E2 # [Engine 3 ''sqlite://'']) (register 7 E1 world0)
     = unregister 7 E2 (snd (unregister_all 7 [E1] (register 7 E1 world0)))
   \<and> fst (unregister 7 E2 (snd (unregister_all 7 [E1] (register 7 E1 world0))))
     = Some InvalidRequestError"
  using unregister_all_stops_at_first_failure
    [of 7 "[E1]" "register 7 E1 world0" E2 InvalidRequestError "[Engine 3 ''sqlite://'']"]
  by (simp add: unregister_def register_def event_remove_def event_listen_def set_add_def
      world0_def E1_def E2_def)

section \<open>The lifecycle of a request\<close>

subsection \<open>Installing the hooks\<close>

lemma register_calls_eq: "calls (register self e w) = calls w @ register_calls self e"
  by (simp add: register_def event_listen_def register_calls_def)

lemma register_queries: "queries (register self e w) = queries w"
  by (simp add: register_def event_listen_def)

lemma register_listeners_superset: "set (listeners w) \<subseteq> set (listeners (register self e w))"
  by (auto simp: register_def event_listen_def set_add_def)

lemma register_all_listeners_superset:
  "set (listeners w) \<subseteq> set (listeners (register_all self es w))"
proof (induction es arbitrary: w)
  case Nil
  show ?case by simp
next
  case (Cons e es)
  show ?case
    using register_listeners_superset [of w self e] Cons.IH [of "register self e w"] by auto
qed

lemma register_all_calls:
  "calls (register_all self es w) = calls w @ concat (map (register_calls self) es)"
  by (induction es arbitrary: w) (simp_all add: register_calls_eq)

lemma register_all_queries: "queries (register_all self es w) = queries w"
  by (induction es arbitrary: w) (simp_all add: register_queries)

lemma register_all_installed: "e \<in> set es \<Longrightarrow> installed self e (register_all self es w)"
proof (induction es arbitrary: w)
  case Nil
  then show ?case by simp
next
  case (Cons a es)
  show ?case
  proof (cases "e = a")
    case True
    have "installed self a (register self a w)"
      by (rule register_installed)
    then show ?thesis
      using True register_all_listeners_superset [of "register self a w" self es]
      by (auto simp: installed_def)
  next
    case False
    then show ?thesis using Cons by simp
  qed
qed

lemma process_request_runs:
  "fst (add_engines req p) = None \<Longrightarrow>
   process_request call_next req p w =
     (case call_next req (register_all (pid p) (engines (snd (add_engines req p))) w) of
        (outcome, w2) \<Rightarrow>
          (case unregister_all (pid p) (engines (snd (add_engines req p))) w2 of
             (err, w3) \<Rightarrow>
               ((case err of Some x \<Rightarrow> Inl x | None \<Rightarrow> outcome), snd (add_engines req p), w3)))"
  using add_engines_pid [of req p]
  by (cases "add_engines req p")
     (auto simp: process_request_def Let_def split: prod.splits option.splits)

subsection \<open>Cleanup after the delegated processing\<close>

text \<open>
  C1, as stated, fails: the handler takes the hooks of panel 7 off \<open>E1\<close> and raises
  \<open>RuntimeError\<close>. The cleanup raises \<^verbatim>\<open>InvalidRequestError\<close> at \<open>E1\<close>, which is what
  \<^verbatim>\<open>process_request\<close> raises in place of the handler's exception, and the hooks on \<open>E2\<close>
  stay installed. With \<open>E1\<close> as the only engine the exception is replaced as well.
\<close>

theorem process_request_cleanup_counterexample:
  "fst (handler_unhooks_then_raises (request_of (Inr [SessionValue sharded_session])) world0)
     = Inl (RuntimeError ''boom'')
   \<and> fst (process_request handler_unhooks_then_raises
        (request_of (Inr [SessionValue sharded_session])) (init_panel 7) world0)
     = Inl InvalidRequestError
   \<and> installed 7 E2 (snd (snd (process_request handler_unhooks_then_raises
        (request_of (Inr [SessionValue sharded_session])) (init_panel 7) world0)))
   \<and> fst (process_request handler_unhooks_then_raises
        (request_of (Inr [SessionValue (session_on E1)])) (init_panel 7) world0)
     = Inl InvalidRequestError"
  by (simp add: process_request_def handler_unhooks_then_raises_def request_of_def
      sharded_session_def session_on_def init_panel_def add_engines_def inspect_value_def
      add_bind_to_engines_def unregister_def register_def event_remove_def event_listen_def
      set_add_def installed_def world0_def E1_def E2_def)

text \<open>
  C1, amended: once discovery has returned normally, the cleanup loop runs on the state
  the delegated processing leaves, whatever its outcome (a response, an error response
  or an exception). If the hooks of the panel are then still installed on every engine
  of the set, \<^verbatim>\<open>unregister\<close> is called for every engine, none of the panel's listeners
  remains on them, and the outcome of the delegated processing (the exception it raised,
  unchanged) is the outcome of \<^verbatim>\<open>process_request\<close>.
\<close>

theorem process_request_cleanup:
  assumes "distinct (engines p)"
    and "fst (add_engines req p) = None"
    and "call_next req (register_all (pid p) (engines (snd (add_engines req p))) w)
           = (outcome, w2)"
  shows "snd (snd (process_request call_next req p w))
           = snd (unregister_all (pid p) (engines (snd (add_engines req p))) w2)
    \<and> ((\<forall>e\<in>set (engines (snd (add_engines req p))). installed (pid p) e w2) \<longrightarrow>
          fst (process_request call_next req p w) = outcome
          \<and> (\<forall>e\<in>set (engines (snd (add_engines req p))).
                no_hooks (pid p) e (snd (snd (process_request call_next req p w))))
          \<and> calls (snd (snd (process_request call_next req p w)))
              = calls w2 @ concat (map (unregister_calls (pid p))
                                     (engines (snd (add_engines req p)))))"
proof -
  let ?es = "engines (snd (add_engines req p))"
  obtain err w3 where cleanup: "unregister_all (pid p) ?es w2 = (err, w3)"
    by (cases "unregister_all (pid p) ?es w2")
  have run: "process_request call_next req p w
      = ((case err of Some x \<Rightarrow> Inl x | None \<Rightarrow> outcome), snd (add_engines req p), w3)"
    using process_request_runs [OF assms(2), of call_next w] assms(3) cleanup by simp
  have world: "snd (snd (process_request call_next req p w)) = snd (unregister_all (pid p) ?es w2)"
    using run cleanup by simp
  have "fst (process_request call_next req p w) = outcome
      \<and> (\<forall>e\<in>set ?es. no_hooks (pid p) e (snd (snd (process_request call_next req p w))))
      \<and> calls (snd (snd (process_request call_next req p w)))
          = calls w2 @ concat (map (unregister_calls (pid p)) ?es)"
    if hooks: "\<forall>e\<in>set ?es. installed (pid p) e w2"
  proof -
    have d: "distinct ?es"
      by (rule add_engines_distinct [OF assms(1)])
    have ok: "fst (unregister_all (pid p) ?es w2) = None
        \<and> (\<forall>e\<in>set ?es. no_hooks (pid p) e (snd (unregister_all (pid p) ?es w2)))"
      by (rule unregister_all_installed [OF d hooks])
    then have "err = None"
      using cleanup by simp
    then show ?thesis
      using run ok cleanup unregister_all_calls [of "pid p" ?es w2] by simp
  qed
  then show ?thesis
    using world by blast
qed

theorem process_request_cleanup_witness:
  "process_request handler_raises (request_of (Inr [SessionValue sharded_session]))
     (init_panel 7) world0
   = (Inl (RuntimeError ''boom''), \<lparr>pid = 7, engines = [E1, E2]\<rparr>,
      world0\<lparr>calls := concat (map (register_calls 7) [E1, E2])
                        @ concat (map (unregister_calls 7) [E1, E2])\<rparr>)"
  using process_request_cleanup
    [of "init_panel 7" "request_of (Inr [SessionValue sharded_session])" handler_raises world0
        "Inl (RuntimeError ''boom'')"
        "register_all 7 [E1, E2] world0"]
  by (simp add: process_request_def handler_raises_def request_of_def
      sharded_session_def init_panel_def add_engines_def inspect_value_def
      add_bind_to_engines_def unregister_def register_def event_remove_def event_listen_def
      set_add_def installed_def no_hooks_def world0_def E1_def E2_def
      register_calls_def unregister_calls_def)

subsection \<open>The engine set over the life of a panel\<close>

lemma apply_ops_grows: "set (engines (fst pw)) \<subseteq> set (engines (fst (apply_ops ops pw)))"
proof (induction ops pw rule: apply_ops.induct)
  case (1 pw)
  show ?case by simp
next
  case (2 req ops p w)
  then show ?case
    using add_engines_grows [of p req] by auto
next
  case (3 call_next req ops p w)
  then show ?case
    using add_engines_grows [of p req] process_request_panel [of call_next req p w] by auto
qed

lemma apply_ops_append: "apply_ops (ops1 @ ops2) pw = apply_ops ops2 (apply_ops ops1 pw)"
  by (induction ops1 pw rule: apply_ops.induct) simp_all

text \<open>
  C10: \<^verbatim>\<open>add_engines\<close> and \<^verbatim>\<open>process_request\<close> only add to the engine set, also when
  they raise; so after any sequence of calls on a panel the set has every engine found
  by any call before. A \<^verbatim>\<open>process_request\<close> whose discovery returns normally registers
  the hooks on every engine that was in the set before the call: the delegated processing
  runs with them installed.
\<close>

theorem engines_only_grow:
  "set (engines p) \<subseteq> set (engines (snd (add_engines req p)))
   \<and> set (engines p) \<subseteq> set (engines (fst (snd (process_request call_next req p w))))
   \<and> set (engines (fst (apply_ops ops1 (p, w))))
        \<subseteq> set (engines (fst (apply_ops (ops1 @ ops2) (p, w))))
   \<and> (fst (add_engines req p) = None \<longrightarrow>
        (\<forall>e\<in>set (engines p).
            installed (pid p) e (register_all (pid p) (engines (snd (add_engines req p))) w)
            \<and> set (register_calls (pid p) e)
                \<subseteq> set (drop (length (calls w))
                     (calls (register_all (pid p) (engines (snd (add_engines req p))) w))))
        \<and> process_request call_next req p w =
            (case call_next req (register_all (pid p) (engines (snd (add_engines req p))) w) of
               (outcome, w2) \<Rightarrow>
                 (case unregister_all (pid p) (engines (snd (add_engines req p))) w2 of
                    (err, w3) \<Rightarrow>
                      ((case err of Some x \<Rightarrow> Inl x | None \<Rightarrow> outcome),
                       snd (add_engines req p), w3))))"
proof -
  let ?es = "engines (snd (add_engines req p))"
  have grow: "set (engines p) \<subseteq> set ?es"
    by (rule add_engines_grows)
  have two: "set (engines p) \<subseteq> set (engines (fst (snd (process_request call_next req p w))))"
    using grow by (simp add: process_request_panel)
  have three: "set (engines (fst (apply_ops ops1 (p, w))))
        \<subseteq> set (engines (fst (apply_ops (ops1 @ ops2) (p, w))))"
    using apply_ops_grows [of "apply_ops ops1 (p, w)" ops2] by (simp add: apply_ops_append)
  have four: "installed (pid p) e (register_all (pid p) ?es w)
      \<and> set (register_calls (pid p) e)
          \<subseteq> set (drop (length (calls w)) (calls (register_all (pid p) ?es w)))"
    if "e \<in> set (engines p)" for e
  proof -
    have e: "e \<in> set ?es"
      using that grow by auto
    then show ?thesis
      using register_all_installed [OF e, of "pid p" w]
      by (auto simp: register_all_calls)
  qed
  show ?thesis
    using grow two three four process_request_runs [of req p call_next w] by blast
qed

theorem engines_only_grow_witness:
  "fst (snd (process_request handler_select (request_of (Inr [SessionValue (session_on E1)]))
      (init_panel 7) world0)) = \<lparr>pid = 7, engines = [E1]\<rparr>
   \<and> installed 7 E1 (register_all 7
        (engines (snd (add_engines (request_of (Inr [OtherValue])) \<lparr>pid = 7, engines = [E1]\<rparr>)))
        world0)"
  using engines_only_grow
    [of "\<lparr>pid = 7, engines = [E1]\<rparr>" "request_of (Inr [OtherValue])" handler_select world0 "[]" "[]"]
  by (simp add: process_request_panel request_of_def session_on_def init_panel_def
      add_engines_def inspect_value_def add_bind_to_engines_def set_add_def)

section \<open>Requests that share an engine\<close>

text \<open>
  Requests are handled by coroutines of one event loop, so two requests overlap when one
  is processed while the handler of the other is suspended. The registry in the
  hypotheses below is one that \<^verbatim>\<open>register\<close> and \<^verbatim>\<open>unregister\<close> have built: every
  listener under the event of its method, none twice.
\<close>

lemma invoke_queries_other:
  "cb \<noteq> AfterExecute p \<Longrightarrow> queries (snd (snd (invoke cb ctx w))) p = queries w p"
  by (cases cb)
     (auto simp: invoke_def after_execute_def add_query_def split: option.splits prod.splits)

lemma fire_queries_other:
  "AfterExecute p \<notin> set cbs \<Longrightarrow> queries (snd (snd (fire cbs ctx w))) p = queries w p"
proof (induction cbs arbitrary: ctx w)
  case Nil
  show ?case by simp
next
  case (Cons cb cbs)
  obtain r ctx' w' where step: "invoke cb ctx w = (r, ctx', w')"
    by (cases "invoke cb ctx w")
  have "cb \<noteq> AfterExecute p"
    using Cons.prems by auto
  then have "queries w' p = queries w p"
    using invoke_queries_other [of cb p ctx w] step by simp
  then show ?case
    using step Cons.IH [of ctx' w'] Cons.prems by (cases r) auto
qed

lemma fire_before:
  "\<forall>cb\<in>set cbs. \<exists>q. cb = BeforeExecute q \<Longrightarrow>
   fire cbs ctx w = (None, (if cbs = [] then ctx else ctx\<lparr>start_time := Some (now w)\<rparr>), w)"
proof (induction cbs arbitrary: ctx)
  case Nil
  show ?case by simp
next
  case (Cons cb cbs)
  obtain q where cb: "cb = BeforeExecute q"
    using Cons.prems by auto
  have "\<forall>cb\<in>set cbs. \<exists>q. cb = BeforeExecute q"
    using Cons.prems by simp
  then show ?case
    using Cons.IH [of "ctx\<lparr>start_time := Some (now w)\<rparr>"] cb
    by (simp add: invoke_def before_execute_def)
qed

lemma fire_after:
  "\<forall>cb\<in>set cbs. \<exists>q. cb = AfterExecute q \<Longrightarrow> start_time ctx = Some t0 \<Longrightarrow>
   fst (fire cbs ctx w) = None
   \<and> queries (snd (snd (fire cbs ctx w))) p
       = queries w p @ replicate (count_list cbs (AfterExecute p))
           (url (engine ctx),
            \<lparr>duration = (now w - t0) * 1000, sql = statement ctx, params = parameters ctx\<rparr>)"
proof (induction cbs arbitrary: w)
  case Nil
  show ?case by simp
next
  case (Cons cb cbs)
  obtain q where cb: "cb = AfterExecute q"
    using Cons.prems(1) by auto
  let ?r = "(url (engine ctx),
            \<lparr>duration = (now w - t0) * 1000, sql = statement ctx, params = parameters ctx\<rparr>)"
  let ?w = "add_query q (url (engine ctx))
            \<lparr>duration = (now w - t0) * 1000, sql = statement ctx, params = parameters ctx\<rparr> w"
  have step: "invoke cb ctx w = (None, ctx, ?w)"
    using cb Cons.prems(2) by (simp add: invoke_def after_execute_def)
  have rest: "\<forall>cb\<in>set cbs. \<exists>q. cb = AfterExecute q"
    using Cons.prems(1) by simp
  have now: "now ?w = now w"
    by (simp add: add_query_def)
  have ih: "fst (fire cbs ctx ?w) = None
     \<and> queries (snd (snd (fire cbs ctx ?w))) p
         = queries ?w p @ replicate (count_list cbs (AfterExecute p)) ?r"
    using Cons.IH [OF rest Cons.prems(2), of ?w] now by simp
  have "queries ?w p = queries w p @ (if p = q then [?r] else [])"
    by (simp add: add_query_def)
  then show ?case
    using step ih cb by (simp add: replicate_append_same [symmetric] del: replicate_append_same)
qed

lemma listeners_for_set:
  "cb \<in> set (listeners_for e ev w) \<longleftrightarrow> (e, ev, cb) \<in> set (listeners w)"
  by (force simp: listeners_for_def)

lemma listeners_for_distinct: "distinct (listeners w) \<Longrightarrow> distinct (listeners_for e ev w)"
  unfolding listeners_for_def
  by (rule distinct_map [THEN iffD2]) (auto simp: inj_on_def prod_eq_iff)

lemma listeners_for_before:
  "\<forall>k\<in>set (listeners w). own_event k \<Longrightarrow>
   \<forall>cb\<in>set (listeners_for e before_cursor_execute w). \<exists>q. cb = BeforeExecute q"
proof
  fix cb assume all: "\<forall>k\<in>set (listeners w). own_event k"
    and "cb \<in> set (listeners_for e before_cursor_execute w)"
  then have "own_event (e, before_cursor_execute, cb)"
    by (simp add: listeners_for_set)
  then show "\<exists>q. cb = BeforeExecute q"
    by (cases cb) simp_all
qed

lemma listeners_for_after:
  "\<forall>k\<in>set (listeners w). own_event k \<Longrightarrow>
   \<forall>cb\<in>set (listeners_for e after_cursor_execute w). \<exists>q. cb = AfterExecute q"
proof
  fix cb assume all: "\<forall>k\<in>set (listeners w). own_event k"
    and "cb \<in> set (listeners_for e after_cursor_execute w)"
  then have "own_event (e, after_cursor_execute, cb)"
    by (simp add: listeners_for_set)
  then show "\<exists>q. cb = AfterExecute q"
    by (cases cb) simp_all
qed

lemma register_keeps_registry_shape:
  "\<forall>k\<in>set (listeners w). own_event k \<Longrightarrow> distinct (listeners w) \<Longrightarrow>
   (\<forall>k\<in>set (listeners (register self e w)). own_event k)
   \<and> distinct (listeners (register self e w))"
  by (auto simp: register_def event_listen_def set_add_def)

lemma unregister_keeps_registry_shape:
  "\<forall>k\<in>set (listeners w). own_event k \<Longrightarrow> distinct (listeners w) \<Longrightarrow>
   (\<forall>k\<in>set (listeners (snd (unregister self e w))). own_event k)
   \<and> distinct (listeners (snd (unregister self e w)))"
  using unregister_listeners_subset [of self e w]
  by (auto simp: unregister_def event_remove_def distinct_removeAll
      split: prod.splits option.splits if_splits)

text \<open>
  C8, as stated, fails: the first request (panel 7) executes no statement; while its
  handler waits, a second request (panel 8) on the same engine is processed and executes
  \<^verbatim>\<open>SELECT 1\<close>. The Query Log of panel 7 ends with the record of that statement.
\<close>

theorem query_log_isolation_counterexample:
  "queries (snd (snd (process_request handler_waits_for_other
      (request_of (Inr [SessionValue (session_on E1)])) (init_panel 7) world0))) 7
   = [(''postgresql://db/app'', \<lparr>duration = 2000, sql = ''SELECT 1'', params = []\<rparr>)]"
  by (simp add: process_request_def handler_waits_for_other_def handler_select_def execute_def
      listeners_for_def invoke_def before_execute_def after_execute_def add_query_def
      request_of_def session_on_def init_panel_def add_engines_def inspect_value_def
      add_bind_to_engines_def unregister_def register_def event_remove_def event_listen_def
      set_add_def world0_def E1_def)

text \<open>
  C8, amended: a statement executed through an engine is recorded once in the Query Log
  of every panel whose hooks are installed on that engine at that moment, whichever
  request executes it, and the Query Log of a panel whose after listener is not
  registered on that engine is left as it was. A request's log is thus free of another
  request's statements only where their hook windows on the engine do not overlap.
\<close>

theorem execute_records_in_every_installed_panel:
  assumes "\<forall>k\<in>set (listeners w). own_event k" and "distinct (listeners w)"
  shows "(installed p e w \<longrightarrow>
            fst (execute e stmt ps dt w) = None
            \<and> queries (snd (execute e stmt ps dt w)) p
                = queries w p @ [(url e, \<lparr>duration = dt * 1000, sql = stmt, params = ps\<rparr>)])
    \<and> ((e, after_cursor_execute, AfterExecute p) \<notin> set (listeners w) \<longrightarrow>
            queries (snd (execute e stmt ps dt w)) p = queries w p)"
proof -
  let ?ctx = "\<lparr>engine = e, statement = stmt, parameters = ps, start_time = None\<rparr>"
  let ?bs = "listeners_for e before_cursor_execute w"
  let ?as = "listeners_for e after_cursor_execute w"
  let ?ctx1 = "if ?bs = [] then ?ctx else ?ctx\<lparr>start_time := Some (now w)\<rparr>"
  let ?w1 = "w\<lparr>now := now w + dt\<rparr>"
  have before: "fire ?bs ?ctx w = (None, ?ctx1, w)"
    by (rule fire_before [OF listeners_for_before [OF assms(1)]])
  have run: "execute e stmt ps dt w
      = (fst (fire ?as ?ctx1 ?w1), snd (snd (fire ?as ?ctx1 ?w1)))"
    using before by (simp add: execute_def split: prod.splits)
  have one: "fst (execute e stmt ps dt w) = None
      \<and> queries (snd (execute e stmt ps dt w)) p
          = queries w p @ [(url e, \<lparr>duration = dt * 1000, sql = stmt, params = ps\<rparr>)]"
    if inst: "installed p e w"
  proof -
    have "BeforeExecute p \<in> set ?bs"
      using inst by (simp add: installed_def listeners_for_set)
    then have ctx1: "?ctx1 = ?ctx\<lparr>start_time := Some (now w)\<rparr>"
      by auto
    have afters: "\<forall>cb\<in>set ?as. \<exists>q. cb = AfterExecute q"
      by (rule listeners_for_after [OF assms(1)])
    have "AfterExecute p \<in> set ?as"
      using inst by (simp add: installed_def listeners_for_set)
    then have count: "count_list ?as (AfterExecute p) = 1"
      using listeners_for_distinct [OF assms(2), of e after_cursor_execute]
      by (simp add: count_list_distinct)
    have "fst (fire ?as (?ctx\<lparr>start_time := Some (now w)\<rparr>) ?w1) = None
      \<and> queries (snd (snd (fire ?as (?ctx\<lparr>start_time := Some (now w)\<rparr>) ?w1))) p
          = queries ?w1 p @ replicate (count_list ?as (AfterExecute p))
              (url (engine (?ctx\<lparr>start_time := Some (now w)\<rparr>)),
               \<lparr>duration = (now ?w1 - now w) * 1000,
                sql = statement (?ctx\<lparr>start_time := Some (now w)\<rparr>),
                params = parameters (?ctx\<lparr>start_time := Some (now w)\<rparr>)\<rparr>)"
      by (rule fire_after [OF afters]) simp
    then show ?thesis
      using run ctx1 count by simp
  qed
  have two: "queries (snd (execute e stmt ps dt w)) p = queries w p"
    if "(e, after_cursor_execute, AfterExecute p) \<notin> set (listeners w)"
  proof -
    have "AfterExecute p \<notin> set ?as"
      using that by (simp add: listeners_for_set)
    then have "queries (snd (snd (fire ?as ?ctx1 ?w1))) p = queries ?w1 p"
      by (rule fire_queries_other)
    then show ?thesis
      using run by simp
  qed
  show ?thesis
    using one two by blast
qed

theorem execute_records_in_every_installed_panel_witness:
  "installed 7 E1 (register 8 E1 (register 7 E1 world0))
   \<and> installed 8 E1 (register 8 E1 (register 7 E1 world0))
   \<and> queries (snd (execute E1 ''SELECT 1'' [] 2 (register 8 E1 (register 7 E1 world0)))) 7
       = [(''postgresql://db/app'', \<lparr>duration = 2000, sql = ''SELECT 1'', params = []\<rparr>)]
   \<and> queries (snd (execute E1 ''SELECT 1'' [] 2 (register 8 E1 (register 7 E1 world0)))) 8
       = [(''postgresql://db/app'', \<lparr>duration = 2000, sql = ''SELECT 1'', params = []\<rparr>)]
   \<and> queries (snd (execute E1 ''SELECT 1'' [] 2 (register 8 E1 (register 7 E1 world0)))) 9 = []"
  using execute_records_in_every_installed_panel
      [of "register 8 E1 (register 7 E1 world0)" 7 E1 "''SELECT 1''" "[]" 2]
    execute_records_in_every_installed_panel
      [of "register 8 E1 (register 7 E1 world0)" 8 E1 "''SELECT 1''" "[]" 2]
    execute_records_in_every_installed_panel
      [of "register 8 E1 (register 7 E1 world0)" 9 E1 "''SELECT 1''" "[]" 2]
  by (simp add: installed_def register_def event_listen_def set_add_def world0_def E1_def)

end
